theory Spec2Isabelle
  imports Main "HOL-Library.Word"
begin

section \<open>Go strings\<close>

text \<open>
  A Go string is a sequence of bytes, here a \<open>char list\<close>. The functions of Go's
  \<open>strings\<close> package that the enricher calls are written out below for the arguments the
  enricher passes (the separator is always one ASCII byte).
\<close>

text \<open>
  \<open>unicode.IsSpace\<close>, as UTF-8 byte sequences: the six ASCII white-space bytes, then
  U+0085, U+00A0, U+1680, U+2000 to U+200A, U+2028, U+2029, U+202F, U+205F and U+3000.
\<close>

definition spaceRunes :: "string list" where
  "spaceRunes =
    [[CHR 0x09], [CHR 0x0A], [CHR 0x0B], [CHR 0x0C], [CHR 0x0D], [CHR 0x20],
     [CHR 0xC2, CHR 0x85], [CHR 0xC2, CHR 0xA0],
     [CHR 0xE1, CHR 0x9A, CHR 0x80],
     [CHR 0xE2, CHR 0x80, CHR 0x80], [CHR 0xE2, CHR 0x80, CHR 0x81],
     [CHR 0xE2, CHR 0x80, CHR 0x82], [CHR 0xE2, CHR 0x80, CHR 0x83],
     [CHR 0xE2, CHR 0x80, CHR 0x84], [CHR 0xE2, CHR 0x80, CHR 0x85],
     [CHR 0xE2, CHR 0x80, CHR 0x86], [CHR 0xE2, CHR 0x80, CHR 0x87],
     [CHR 0xE2, CHR 0x80, CHR 0x88], [CHR 0xE2, CHR 0x80, CHR 0x89],
     [CHR 0xE2, CHR 0x80, CHR 0x8A],
     [CHR 0xE2, CHR 0x80, CHR 0xA8], [CHR 0xE2, CHR 0x80, CHR 0xA9],
     [CHR 0xE2, CHR 0x80, CHR 0xAF], [CHR 0xE2, CHR 0x81, CHR 0x9F],
     [CHR 0xE3, CHR 0x80, CHR 0x80]]"

text \<open>
  The width in bytes of the white-space rune that \<open>s\<close> starts with (ends with), and 0
  when it starts (ends) with none: what \<open>utf8.DecodeRuneInString\<close>
  (\<open>utf8.DecodeLastRuneInString\<close>) and \<open>unicode.IsSpace\<close> decide together.
\<close>

definition leadingSpace :: "string \<Rightarrow> nat" where
  "leadingSpace s =
     (case find (\<lambda>w. take (length w) s = w) spaceRunes of Some w \<Rightarrow> length w | None \<Rightarrow> 0)"

definition trailingSpace :: "string \<Rightarrow> nat" where
  "trailingSpace s =
     (case find (\<lambda>w. drop (length s - length w) s = w) spaceRunes of
        Some w \<Rightarrow> length w
      | None \<Rightarrow> 0)"

lemma spaceRunes_nonempty: "w \<in> set spaceRunes \<Longrightarrow> w \<noteq> []"
  by (auto simp: spaceRunes_def)

lemma leadingSpace_shorter:
  assumes "leadingSpace s \<noteq> 0"
  shows "length (drop (leadingSpace s) s) < length s"
proof -
  from assms obtain w where f: "find (\<lambda>w. take (length w) s = w) spaceRunes = Some w"
    and l: "leadingSpace s = length w"
    by (auto simp: leadingSpace_def split: option.splits)
  from f have w: "w \<in> set spaceRunes" and t: "take (length w) s = w"
    by (auto simp: find_Some_iff)
  from w have "w \<noteq> []" by (rule spaceRunes_nonempty)
  with t have "s \<noteq> []" by auto
  with \<open>w \<noteq> []\<close> l show ?thesis by simp
qed

lemma trailingSpace_shorter:
  assumes "trailingSpace s \<noteq> 0"
  shows "length (take (length s - trailingSpace s) s) < length s"
proof -
  from assms obtain w where f: "find (\<lambda>w. drop (length s - length w) s = w) spaceRunes = Some w"
    and l: "trailingSpace s = length w"
    by (auto simp: trailingSpace_def split: option.splits)
  from f have w: "w \<in> set spaceRunes" and t: "drop (length s - length w) s = w"
    by (auto simp: find_Some_iff)
  from w have "w \<noteq> []" by (rule spaceRunes_nonempty)
  with t have "s \<noteq> []" by auto
  with \<open>w \<noteq> []\<close> l show ?thesis by simp
qed

text \<open>\<open>strings.TrimLeftFunc(s, unicode.IsSpace)\<close>: drop white-space runes from the front.\<close>

function TrimLeft :: "string \<Rightarrow> string" where
  "TrimLeft s = (if leadingSpace s = 0 then s else TrimLeft (drop (leadingSpace s) s))"
  by pat_completeness auto
termination
proof (relation "measure length")
  fix s :: string
  assume "leadingSpace s \<noteq> 0"
  then show "(drop (leadingSpace s) s, s) \<in> measure length"
    using leadingSpace_shorter [of s] by simp
qed simp

text \<open>\<open>strings.TrimRightFunc(s, unicode.IsSpace)\<close>: drop white-space runes from the end.\<close>

function TrimRight :: "string \<Rightarrow> string" where
  "TrimRight s =
     (if trailingSpace s = 0 then s else TrimRight (take (length s - trailingSpace s) s))"
  by pat_completeness auto
termination
proof (relation "measure length")
  fix s :: string
  assume "trailingSpace s \<noteq> 0"
  then show "(take (length s - trailingSpace s) s, s) \<in> measure length"
    using trailingSpace_shorter [of s] by simp
qed simp

declare TrimLeft.simps [simp del] TrimRight.simps [simp del]

text \<open>\<open>strings.TrimSpace\<close>.\<close>

definition TrimSpace :: "string \<Rightarrow> string" where
  "TrimSpace s = TrimRight (TrimLeft s)"

text \<open>\<open>strings.Index(s, sep)\<close> for a one-byte \<open>sep\<close>; \<open>None\<close> is Go's \<open>-1\<close>.\<close>

fun Index :: "string \<Rightarrow> char \<Rightarrow> nat option" where
  "Index [] c = None"
| "Index (x # xs) c = (if x = c then Some 0 else map_option Suc (Index xs c))"

text \<open>\<open>strings.SplitSeq(s, sep)\<close> for a one-byte \<open>sep\<close>, as the list of the parts it yields.\<close>

fun Split :: "string \<Rightarrow> char \<Rightarrow> string list" where
  "Split [] c = [[]]"
| "Split (x # xs) c =
     (if x = c then [] # Split xs c
      else (case Split xs c of
              [] \<Rightarrow> [[x]]
            | p # ps \<Rightarrow> (x # p) # ps))"

text \<open>\<open>strings.Join(elems, sep)\<close>.\<close>

fun Join :: "string list \<Rightarrow> string \<Rightarrow> string" where
  "Join [] sep = []"
| "Join [x] sep = x"
| "Join (x # y # zs) sep = x @ sep @ Join (y # zs) sep"

section \<open>Errors\<close>

text \<open>
  Every error of the enricher is built by \<open>fmt.Errorf\<close>; the datatype keeps the arguments
  of each format, and \<open>Error\<close> is the message Go prints for it. \<open>PropertyError\<close> is the
  wrapper \<open>"property %s.%s: %w"\<close> of \<open>enrichNode\<close>.
\<close>

datatype error =
    UnsupportedConstraint
  | InvalidPattern string string
  | RuleConflict string string
  | PropertyError string string error

fun Error :: "error \<Rightarrow> string" where
  "Error UnsupportedConstraint =
     ''validation keyword 'multipleOf' is not supported by auto-enricher''"
| "Error (InvalidPattern pat msg) =
     ''validation keyword 'pattern' ''  @ [CHR 0x27] @ pat @ [CHR 0x27] @
     '' is not a valid Go RE2 regex: '' @ msg"
| "Error (RuleConflict existingTag tag) =
     ''conflict: manual tag '' @ [CHR 0x27] @ existingTag @ [CHR 0x27] @
     '' differs from generated tag '' @ [CHR 0x27] @ tag @ [CHR 0x27]"
| "Error (PropertyError name propName err) =
     ''property '' @ name @ ''.'' @ propName @ '': '' @ Error err"

section \<open>The rule merger\<close>

definition getTagKey :: "string \<Rightarrow> string" where
  "getTagKey tag = (case Index tag (CHR ''='') of Some idx \<Rightarrow> take idx tag | None \<Rightarrow> tag)"

text \<open>
  The first loop of \<open>mergeRules\<close>, over \<open>existingRules\<close>; the state is the slice \<open>rules\<close>
  and the map \<open>existingKeys\<close>.
\<close>

fun mergeExisting ::
  "string list \<Rightarrow> string list \<times> (string \<rightharpoonup> string) \<Rightarrow> string list \<times> (string \<rightharpoonup> string)" where
  "mergeExisting [] st = st"
| "mergeExisting (part # parts) (rules, existingKeys) =
     (let part' = TrimSpace part in
      if part' = [] then mergeExisting parts (rules, existingKeys)
      else mergeExisting parts (rules @ [part'], existingKeys(getTagKey part' \<mapsto> part')))"

text \<open>The second loop, over \<open>newRules\<close>, which returns at the first conflict.\<close>

fun mergeNew ::
  "string list \<Rightarrow> string list \<times> (string \<rightharpoonup> string) \<Rightarrow> error + string list" where
  "mergeNew [] (rules, existingKeys) = Inr rules"
| "mergeNew (tag # tags) (rules, existingKeys) =
     (case existingKeys (getTagKey tag) of
        Some existingTag \<Rightarrow>
          if existingTag \<noteq> tag then Inl (RuleConflict existingTag tag)
          else mergeNew tags (rules, existingKeys)
      | None \<Rightarrow> mergeNew tags (rules @ [tag], existingKeys(getTagKey tag \<mapsto> tag)))"

definition mergeRules :: "string list \<Rightarrow> string list \<Rightarrow> error + string list" where
  "mergeRules existingRules newRules = mergeNew newRules (mergeExisting existingRules ([], Map.empty))"

section \<open>The document\<close>

text \<open>
  The document of \<open>kin-openapi\<close> is a graph of pointers: a \<open>*SchemaRef\<close> holds the text of
  a \<open>$ref\<close> and a pointer to the \<open>*Schema\<close> it resolves to, and a schema holds its
  properties as \<open>map[string]*SchemaRef\<close>. Pointers are addresses into two stores, so that
  two references may share one schema, as they do after the loader has resolved a
  \<open>$ref\<close>. A Go map is given as the list of its entries in the order in which \<open>range\<close>
  visits them; Go leaves that order open, and the model takes the order of the list each
  time.
\<close>

type_synonym saddr = nat
type_synonym raddr = nat
type_synonym float64 = "64 word"
type_synonym uint64 = "64 word"

text \<open>
  A value of Go's type \<open>any\<close> inside \<open>Extensions\<close>: the enricher tells apart a string and
  a \<open>map[string]any\<close>, and nothing else. An inner map is a value here; the enricher
  changes it in place, and the model stores the changed map back where the schema holds
  it.
\<close>

datatype any = AString string | AMap "string \<Rightarrow> any option" | AOther nat

record Schema =
  Extensions :: "(string \<rightharpoonup> any) option"
  Required :: "string list"
  Properties :: "(string \<times> raddr) list"
  MultipleOf :: "float64 option"
  Pattern :: string
  MinLength :: uint64
  MaxLength :: "uint64 option"
  Min' :: "float64 option"
  Max' :: "float64 option"
  ExclusiveMin :: bool
  ExclusiveMax :: bool
  MinItems :: uint64
  MaxItems :: "uint64 option"
  UniqueItems :: bool
  Format :: string

record SchemaRef =
  Ref :: string
  Value :: "saddr option"

record SchemaContext =
  Schema :: saddr
  Name :: string

text \<open>
  The state the enricher runs in: the two stores, and \<open>errs\<close>, the named result of
  \<open>enrichSpec\<close> that its loop body joins errors to. \<open>errors.Join\<close> nests the joined
  errors; the list holds them flat, in the order they were joined.
\<close>

record World =
  schemas :: "saddr \<Rightarrow> Schema"
  refs :: "raddr \<Rightarrow> SchemaRef"
  errs :: "error list"

text \<open>
  What the enricher takes from Go's libraries without the repository defining it:
  \<open>regexp.Compile\<close>, as the message of the error it returns (\<open>None\<close> when the pattern
  compiles), and \<open>fmt.Sprintf("%.0f", x)\<close> on a \<open>float64\<close>.
\<close>

record Lib =
  regexp_Compile :: "string \<Rightarrow> string option"
  Sprintf_f0 :: "float64 \<Rightarrow> string"

definition tagKey :: string where
  "tagKey = ''x-oapi-codegen-extra-tags''"

definition validate :: string where
  "validate = ''validate''"

section \<open>The rule generator\<close>

text \<open>\<open>fmt.Sprintf("%d", n)\<close> on an unsigned integer.\<close>

fun Sprintf_d :: "nat \<Rightarrow> string" where
  "Sprintf_d n =
     (if n < 10 then [''0123456789'' ! n]
      else Sprintf_d (n div 10) @ [''0123456789'' ! (n mod 10)])"

declare Sprintf_d.simps [simp del]

definition generateRules :: "Lib \<Rightarrow> Schema \<Rightarrow> error + string list" where
  "generateRules lib s =
     (if MultipleOf s \<noteq> None then Inl UnsupportedConstraint
      else case (if Pattern s \<noteq> [] then regexp_Compile lib (Pattern s) else None) of
        Some msg \<Rightarrow> Inl (InvalidPattern (Pattern s) msg)
      | None \<Rightarrow>
        let tags = [];
            tags = (if Pattern s \<noteq> [] then tags @ [''regex='' @ Pattern s] else tags);
            tags = (if 0 < MinLength s
                    then tags @ [''min='' @ Sprintf_d (unat (MinLength s))] else tags);
            tags = (case MaxLength s of
                      Some m \<Rightarrow> tags @ [''max='' @ Sprintf_d (unat m)]
                    | None \<Rightarrow> tags);
            tags = (case Min' s of
                      Some x \<Rightarrow>
                        tags @ [(if ExclusiveMin s then ''gt'' else ''min'') @ ''='' @ Sprintf_f0 lib x]
                    | None \<Rightarrow> tags);
            tags = (case Max' s of
                      Some x \<Rightarrow>
                        tags @ [(if ExclusiveMax s then ''lt'' else ''max'') @ ''='' @ Sprintf_f0 lib x]
                    | None \<Rightarrow> tags);
            tags = (if 0 < MinItems s
                    then tags @ [''min='' @ Sprintf_d (unat (MinItems s))] else tags);
            tags = (case MaxItems s of
                      Some m \<Rightarrow> tags @ [''max='' @ Sprintf_d (unat m)]
                    | None \<Rightarrow> tags);
            tags = (if UniqueItems s then tags @ [''unique''] else tags);
            tags = (if Format s = ''email'' then tags @ [''email'']
                    else if Format s = ''uuid'' then tags @ [''uuid'']
                    else if Format s = ''ipv4'' then tags @ [''ipv4'']
                    else if Format s = ''ipv6'' then tags @ [''ipv6'']
                    else if Format s = ''uri'' \<or> Format s = ''url'' then tags @ [''url'']
                    else tags)
        in Inr tags)"

section \<open>The tree traversal\<close>

text \<open>
  Go's \<open>iter.Seq[T]\<close> is a function that is handed \<open>yield\<close> and calls it on each element
  until \<open>yield\<close> returns false. Here \<open>yield\<close> and the sequence thread the state \<open>'s\<close>; a
  sequence returns, with the state, whether every \<open>yield\<close> returned true, which is what
  the body of a \<open>for ... range\<close> over it that runs \<open>return false\<close> leaves behind. The
  result \<open>None\<close> is a walk that ran out of fuel: \<open>walk\<close> recurses as deep as the forest
  is, and Go puts no bound on that.
\<close>

type_synonym ('a, 's) yield = "'a \<Rightarrow> 's \<Rightarrow> (bool \<times> 's) option"
type_synonym ('a, 's) seq = "('a, 's) yield \<Rightarrow> 's \<Rightarrow> (bool \<times> 's) option"

text \<open>\<open>for _, x := range xs\<close> over the entries of a slice or a map, with a loop body.\<close>

fun rangeOver :: "'b list \<Rightarrow> ('b, 's) seq" where
  "rangeOver [] yield s = Some (True, s)"
| "rangeOver (x # xs) yield s =
     (case yield x s of
        None \<Rightarrow> None
      | Some (ok, s') \<Rightarrow> if ok then rangeOver xs yield s' else Some (False, s'))"

primrec walk :: "nat \<Rightarrow> ('a, 's) yield \<Rightarrow> ('a \<Rightarrow> ('a, 's) seq) \<Rightarrow> ('a, 's) yield" where
  "walk 0 yield getChildren = (\<lambda>n s. None)"
| "walk (Suc fuel) yield getChildren =
     (\<lambda>n s. case yield n s of
        None \<Rightarrow> None
      | Some (ok, s') \<Rightarrow>
          if \<not> ok then Some (False, s')
          else getChildren n (walk fuel yield getChildren) s')"

definition PreOrder :: "nat \<Rightarrow> ('a, 's) seq \<Rightarrow> ('a \<Rightarrow> ('a, 's) seq) \<Rightarrow> ('a, 's) seq" where
  "PreOrder fuel roots getChildren = (\<lambda>yield s. roots (walk fuel yield getChildren) s)"

section \<open>The schema graph adapter\<close>

text \<open>
  \<open>toSchemaContext\<close> clears \<open>Ref\<close> on a root reference just before it yields the root's
  node; \<open>getChildren\<close> yields a node for each property whose reference has a value.
\<close>

definition toSchemaContext :: "(string \<times> raddr) list \<Rightarrow> (SchemaContext, World) seq" where
  "toSchemaContext schemas' =
     (\<lambda>yield. rangeOver schemas'
        (\<lambda>(name, ref) w.
           case Value (refs w ref) of
             None \<Rightarrow> Some (True, w)
           | Some a \<Rightarrow>
               yield \<lparr>Schema = a, Name = name\<rparr>
                 (w\<lparr>refs := (refs w)(ref := (refs w ref)\<lparr>Ref := []\<rparr>)\<rparr>)))"

definition getChildren :: "SchemaContext \<Rightarrow> (SchemaContext, World) seq" where
  "getChildren ctx =
     (\<lambda>yield w. rangeOver (Properties (schemas w (Schema ctx)))
        (\<lambda>(propName, propRef) w.
           case Value (refs w propRef) of
             None \<Rightarrow> Some (True, w)
           | Some a \<Rightarrow> yield \<lparr>Schema = a, Name = Name ctx @ ''.'' @ propName\<rparr> w) w)"

section \<open>The enrichment orchestrator\<close>

text \<open>
  \<open>extractAndResetValidateRules\<close> returns the rules and \<open>extMap\<close>, and changes the schema:
  a nil \<open>Extensions\<close> becomes an empty map, and when the entry under \<open>tagKey\<close> is a map,
  \<open>extMap\<close> is that very map, so that \<open>delete(extMap, validate)\<close> removes the entry from
  the schema; otherwise \<open>extMap\<close> is a new map that the schema does not hold yet.
\<close>

definition extractAndResetValidateRules :: "Schema \<Rightarrow> (string list \<times> (string \<rightharpoonup> any)) \<times> Schema" where
  "extractAndResetValidateRules s =
     (let exts = (case Extensions s of None \<Rightarrow> Map.empty | Some m \<Rightarrow> m);
          ok = (case exts tagKey of Some (AMap m) \<Rightarrow> True | _ \<Rightarrow> False);
          extMap = (case exts tagKey of Some (AMap m) \<Rightarrow> m | _ \<Rightarrow> Map.empty);
          existingVal = (case extMap validate of Some (AString v) \<Rightarrow> v | _ \<Rightarrow> []);
          extMap = extMap(validate := None);
          exts = (if ok then exts(tagKey \<mapsto> AMap extMap) else exts);
          rules = (if existingVal \<noteq> []
                   then filter (\<lambda>part. part \<noteq> []) (map TrimSpace (Split existingVal (CHR '','')))
                   else [])
      in ((rules, extMap), s\<lparr>Extensions := Some exts\<rparr>))"

text \<open>
  The body of the loop of \<open>enrichNode\<close> for one property: the error it returns with, if
  any, and the state it leaves. A \<open>continue\<close> gives no error. The last choice is the
  \<open>if\<close> chain on \<open>slices.Contains(ctx.Schema.Required, propName)\<close> and \<open>len(rules) > 0\<close>:
  it ends in the list to join and write, or in \<open>None\<close> for the branch that deletes the
  entry under \<open>tagKey\<close> and continues.
\<close>

definition enrichProperty ::
  "Lib \<Rightarrow> SchemaContext \<Rightarrow> string \<Rightarrow> raddr \<Rightarrow> World \<Rightarrow> error option \<times> World" where
  "enrichProperty lib ctx propName propRef w =
     (case Value (refs w propRef) of
        None \<Rightarrow> (None, w)
      | Some a \<Rightarrow>
         (case generateRules lib (schemas w a) of
            Inl err \<Rightarrow> (Some (PropertyError (Name ctx) propName err), w)
          | Inr oapiRules \<Rightarrow>
             (case extractAndResetValidateRules (schemas w a) of
                ((validatorRules, extMap), s1) \<Rightarrow>
                 let w1 = w\<lparr>schemas := (schemas w)(a := s1)\<rparr> in
                 (case mergeRules validatorRules oapiRules of
                    Inl err \<Rightarrow> (Some (PropertyError (Name ctx) propName err), w1)
                  | Inr rules \<Rightarrow>
                     let exts = (case Extensions (schemas w1 a) of None \<Rightarrow> Map.empty | Some m \<Rightarrow> m);
                         required = (propName \<in> set (Required (schemas w1 (Schema ctx))))
                     in
                     case (if required then Some (''required'' # rules)
                           else if rules \<noteq> [] then Some (''omitempty'' # rules)
                           else None) of
                       None \<Rightarrow>
                         (None, w1\<lparr>schemas := (schemas w1)
                            (a := (schemas w1 a)\<lparr>Extensions := Some (exts(tagKey := None))\<rparr>)\<rparr>)
                     | Some oapiRules \<Rightarrow>
                         let extMap = extMap(validate \<mapsto> AString (Join oapiRules '',''))
                         in (None, w1\<lparr>schemas := (schemas w1)
                              (a := (schemas w1 a)\<lparr>Extensions := Some (exts(tagKey \<mapsto> AMap extMap))\<rparr>)\<rparr>)))))"

text \<open>The loop of \<open>enrichNode\<close> over the properties, which returns at the first error.\<close>

fun enrichProperties ::
  "Lib \<Rightarrow> SchemaContext \<Rightarrow> (string \<times> raddr) list \<Rightarrow> World \<Rightarrow> error option \<times> World" where
  "enrichProperties lib ctx [] w = (None, w)"
| "enrichProperties lib ctx ((propName, propRef) # props) w =
     (case enrichProperty lib ctx propName propRef w of
        (Some err, w') \<Rightarrow> (Some err, w')
      | (None, w') \<Rightarrow> enrichProperties lib ctx props w')"

definition enrichNode :: "Lib \<Rightarrow> SchemaContext \<Rightarrow> World \<Rightarrow> error option \<times> World" where
  "enrichNode lib ctx w = enrichProperties lib ctx (Properties (schemas w (Schema ctx))) w"

text \<open>
  \<open>enrichSpec\<close> on the map \<open>doc.Components.Schemas\<close>: the joined errors (the empty list
  is Go's nil error) and the state after the pass.
\<close>

definition enrichSpec ::
  "nat \<Rightarrow> Lib \<Rightarrow> (string \<times> raddr) list \<Rightarrow> World \<Rightarrow> (error list \<times> World) option" where
  "enrichSpec fuel lib doc w =
     (case PreOrder fuel (toSchemaContext doc) getChildren
             (\<lambda>ctx w. case enrichNode lib ctx w of
                         (None, w') \<Rightarrow> Some (True, w')
                       | (Some err, w') \<Rightarrow> Some (True, w'\<lparr>errs := errs w' @ [err]\<rparr>))
             (w\<lparr>errs := []\<rparr>) of
        None \<Rightarrow> None
      | Some (ok, w') \<Rightarrow> Some (errs w', w'))"

section \<open>Definitions for stating the properties\<close>

subsection \<open>The merger\<close>

text \<open>
  What the first loop of \<open>mergeRules\<close> keeps of the existing rules: each one trimmed, the
  blank ones dropped.
\<close>

definition cleaned :: "string list \<Rightarrow> string list" where
  "cleaned existingRules = filter (\<lambda>p. p \<noteq> []) (map TrimSpace existingRules)"

text \<open>The last rule of a list with a given key: the one \<open>existingKeys\<close> ends up holding.\<close>

definition lastWithKey :: "string \<Rightarrow> string list \<Rightarrow> string option" where
  "lastWithKey k rules = find (\<lambda>e. getTagKey e = k) (rev rules)"

text \<open>
  The generated rules that get appended: in generator order, each rule whose key is not
  among the keys already seen, the keys of the rules appended before it included.
\<close>

fun firstNew :: "string set \<Rightarrow> string list \<Rightarrow> string list" where
  "firstNew seen [] = []"
| "firstNew seen (t # ts) =
     (if getTagKey t \<in> seen then firstNew seen ts
      else t # firstNew (insert (getTagKey t) seen) ts)"

text \<open>
  A conflict: a generated rule differs from the last existing rule with its key, or two
  generated rules with one key, which no existing rule has, differ.
\<close>

definition conflicting :: "string list \<Rightarrow> string list \<Rightarrow> bool" where
  "conflicting existingRules newRules \<longleftrightarrow>
     (\<exists>t\<in>set newRules. lastWithKey (getTagKey t) (cleaned existingRules) \<notin> {None, Some t}) \<or>
     (\<exists>t\<in>set newRules. \<exists>u\<in>set newRules. getTagKey t = getTagKey u \<and> t \<noteq> u \<and>
        getTagKey t \<notin> getTagKey ` set (cleaned existingRules))"

text \<open>The same two conditions against an arbitrary map of recorded keys.\<close>

definition conflictK :: "(string \<rightharpoonup> string) \<Rightarrow> string list \<Rightarrow> bool" where
  "conflictK keys G \<longleftrightarrow>
     (\<exists>t\<in>set G. keys (getTagKey t) \<notin> {None, Some t}) \<or>
     (\<exists>t\<in>set G. \<exists>u\<in>set G. getTagKey t = getTagKey u \<and> t \<noteq> u \<and> getTagKey t \<notin> dom keys)"

definition keyed :: "(string \<rightharpoonup> string) \<Rightarrow> bool" where
  "keyed keys \<longleftrightarrow> (\<forall>k e. keys k = Some e \<longrightarrow> getTagKey e = k)"

definition recorded :: "string list \<Rightarrow> string \<rightharpoonup> string" where
  "recorded existingRules = (\<lambda>k. lastWithKey k (cleaned existingRules))"

subsection \<open>The generator\<close>

text \<open>
  The rules of each check of the generator, in the order of the specification: pattern,
  string length, numeric bounds, array cardinality and uniqueness, format.
\<close>

definition patternRules :: "Schema \<Rightarrow> string list" where
  "patternRules s = (if Pattern s = [] then [] else [''regex='' @ Pattern s])"

definition lengthRules :: "Schema \<Rightarrow> string list" where
  "lengthRules s =
     (if MinLength s = 0 then [] else [''min='' @ Sprintf_d (unat (MinLength s))]) @
     (case MaxLength s of None \<Rightarrow> [] | Some m \<Rightarrow> [''max='' @ Sprintf_d (unat m)])"

definition boundRules :: "Lib \<Rightarrow> Schema \<Rightarrow> string list" where
  "boundRules lib s =
     (case Min' s of
        None \<Rightarrow> []
      | Some x \<Rightarrow> [(if ExclusiveMin s then ''gt='' else ''min='') @ Sprintf_f0 lib x]) @
     (case Max' s of
        None \<Rightarrow> []
      | Some x \<Rightarrow> [(if ExclusiveMax s then ''lt='' else ''max='') @ Sprintf_f0 lib x])"

definition itemsRules :: "Schema \<Rightarrow> string list" where
  "itemsRules s =
     (if MinItems s = 0 then [] else [''min='' @ Sprintf_d (unat (MinItems s))]) @
     (case MaxItems s of None \<Rightarrow> [] | Some m \<Rightarrow> [''max='' @ Sprintf_d (unat m)]) @
     (if UniqueItems s then [''unique''] else [])"

definition formatRules :: "Schema \<Rightarrow> string list" where
  "formatRules s =
     (if Format s \<in> {''email'', ''uuid'', ''ipv4'', ''ipv6''} then [Format s]
      else if Format s \<in> {''uri'', ''url''} then [''url'']
      else [])"

subsection \<open>Values for the examples\<close>

text \<open>The zero value \<open>openapi3.Schema{}\<close>, and a state in which every address holds it.\<close>

definition emptySchema :: Schema where
  "emptySchema = \<lparr>Extensions = None, Required = [], Properties = [], MultipleOf = None,
     Pattern = [], MinLength = 0, MaxLength = None, Min' = None, Max' = None,
     ExclusiveMin = False, ExclusiveMax = False, MinItems = 0, MaxItems = None,
     UniqueItems = False, Format = []\<rparr>"

definition emptyWorld :: World where
  "emptyWorld =
     \<lparr>schemas = (\<lambda>a. emptySchema), refs = (\<lambda>r. \<lparr>Ref = [], Value = None\<rparr>), errs = []\<rparr>"

text \<open>
  A library for the examples, none of which has a pattern or a numeric bound: neither
  function is applied when they are evaluated.
\<close>

definition exampleLib :: Lib where
  "exampleLib = \<lparr>regexp_Compile = (\<lambda>p. None), Sprintf_f0 = (\<lambda>x. [])\<rparr>"

text \<open>
  The stored rule string of a schema: the string under \<open>validate\<close> in the map under
  \<open>tagKey\<close> of its extensions, if there is one.
\<close>

definition storedRules :: "Schema \<Rightarrow> string option" where
  "storedRules s =
     (case Extensions s of
        None \<Rightarrow> None
      | Some exts \<Rightarrow>
         (case exts tagKey of
            Some (AMap m) \<Rightarrow> (case m validate of Some (AString v) \<Rightarrow> Some v | _ \<Rightarrow> None)
          | _ \<Rightarrow> None))"

subsection \<open>The traversal\<close>

text \<open>
  A finite forest as data: a node with the list of its subtrees. \<open>preorder\<close> is
  depth-first pre-order as the specification words it: a node, then its subtrees from
  left to right, each in pre-order.
\<close>

datatype 'a rose = Rose (root: 'a) (kids: "'a rose list")

fun preorder :: "'a rose \<Rightarrow> 'a list" where
  "preorder (Rose a ts) = a # concat (map preorder ts)"

text \<open>
  The child-producing function describes the tree: at every node it returns the roots of
  the node's subtrees, in their order.
\<close>

fun unfolds :: "('a \<Rightarrow> 'a list) \<Rightarrow> 'a rose \<Rightarrow> bool" where
  "unfolds children (Rose a ts) \<longleftrightarrow> children a = map root ts \<and> (\<forall>t\<in>set ts. unfolds children t)"

fun height :: "'a rose \<Rightarrow> nat" where
  "height (Rose a ts) = Suc (foldr (\<lambda>t m. max (height t) m) ts 0)"

definition forestHeight :: "'a rose list \<Rightarrow> nat" where
  "forestHeight ts = foldr (\<lambda>t m. max (height t) m) ts 0"

text \<open>The consumer that appends every node it is handed to a list, and never stops.\<close>

definition collect :: "('a, 'a list) yield" where
  "collect n acc = Some (True, acc @ [n])"

section \<open>The merger: what \<open>mergeRules\<close> returns\<close>

lemma find_append:
  "find P (xs @ ys) = (case find P xs of Some x \<Rightarrow> Some x | None \<Rightarrow> find P ys)"
  by (induction xs) auto

lemma mergeExisting_spec:
  "mergeExisting E (rules, keys) =
     (rules @ cleaned E, \<lambda>k. case lastWithKey k (cleaned E) of Some e \<Rightarrow> Some e | None \<Rightarrow> keys k)"
proof (induction E arbitrary: rules keys)
  case Nil
  then show ?case by (simp add: cleaned_def lastWithKey_def)
next
  case (Cons p E)
  show ?case
  proof (cases "TrimSpace p = []")
    case True
    then show ?thesis using Cons.IH by (simp add: cleaned_def)
  next
    case False
    have c: "cleaned (p # E) = TrimSpace p # cleaned E" using False by (simp add: cleaned_def)
    show ?thesis using False
      by (auto simp: Cons.IH c Let_def lastWithKey_def find_append fun_eq_iff split: option.splits)
  qed
qed

lemma conflictK_alt:
  "conflictK keys G \<longleftrightarrow>
     (\<exists>t\<in>set G. \<exists>e. keys (getTagKey t) = Some e \<and> e \<noteq> t) \<or>
     (\<exists>t\<in>set G. \<exists>u\<in>set G. getTagKey t = getTagKey u \<and> t \<noteq> u \<and> getTagKey t \<notin> dom keys)"
proof -
  have "(keys k \<notin> {None, Some t}) = (\<exists>e. keys k = Some e \<and> e \<noteq> t)" for k t
    by (cases "keys k") auto
  then show ?thesis unfolding conflictK_def by simp
qed

lemma conflictK_same:
  assumes "keys (getTagKey t) = Some t"
  shows "conflictK keys (t # G) = conflictK keys G"
  using assms unfolding conflictK_alt by auto


lemma conflictK_fresh_1:
  assumes n: "keys (getTagKey t) = None" and c: "conflictK keys (t # G)"
  shows "conflictK (keys(getTagKey t \<mapsto> t)) G"
proof -
  let ?k = "getTagKey t"
  let ?keys' = "keys(?k \<mapsto> t)"
  from c consider
      (a) u e where "u \<in> set (t # G)" "keys (getTagKey u) = Some e" "e \<noteq> u"
    | (b) u v where "u \<in> set (t # G)" "v \<in> set (t # G)" "getTagKey u = getTagKey v" "u \<noteq> v"
        "getTagKey u \<notin> dom keys"
    unfolding conflictK_alt by blast
  then show ?thesis
  proof cases
    case a
    with n have "getTagKey u \<noteq> ?k" and "u \<in> set G" by auto
    with a have "?keys' (getTagKey u) = Some e" by simp
    with \<open>u \<in> set G\<close> a(3) show ?thesis unfolding conflictK_alt by blast
  next
    case b
    show ?thesis
    proof (cases "getTagKey u = ?k")
      case True
      from b(4) have "u \<noteq> t \<or> v \<noteq> t" by auto
      then obtain w where w: "w \<in> set G" "getTagKey w = ?k" "w \<noteq> t"
        using b(1,2,3) True by auto
      then have "?keys' (getTagKey w) = Some t" by simp
      with w show ?thesis unfolding conflictK_alt by blast
    next
      case False
      with b have "u \<in> set G" "v \<in> set G" by auto
      moreover from False b(5) have "getTagKey u \<notin> dom ?keys'" by auto
      ultimately show ?thesis using b(3,4) unfolding conflictK_alt by blast
    qed
  qed
qed

lemma conflictK_fresh_2:
  assumes n: "keys (getTagKey t) = None" and c: "conflictK (keys(getTagKey t \<mapsto> t)) G"
  shows "conflictK keys (t # G)"
proof -
  let ?k = "getTagKey t"
  let ?keys' = "keys(?k \<mapsto> t)"
  from c consider
      (a) u e where "u \<in> set G" "?keys' (getTagKey u) = Some e" "e \<noteq> u"
    | (b) u v where "u \<in> set G" "v \<in> set G" "getTagKey u = getTagKey v" "u \<noteq> v"
        "getTagKey u \<notin> dom ?keys'"
    unfolding conflictK_alt by blast
  then show ?thesis
  proof cases
    case a
    show ?thesis
    proof (cases "getTagKey u = ?k")
      case True
      with a have "t \<noteq> u" by auto
      moreover from n have "?k \<notin> dom keys" by (simp add: domIff)
      ultimately have "\<exists>x\<in>set (t # G). \<exists>y\<in>set (t # G).
          getTagKey x = getTagKey y \<and> x \<noteq> y \<and> getTagKey x \<notin> dom keys"
        using a(1) True by (intro bexI [of _ t] bexI [of _ u]) auto
      then show ?thesis unfolding conflictK_alt by blast
    next
      case False
      with a have "keys (getTagKey u) = Some e" by simp
      with a(1,3) have "\<exists>x\<in>set (t # G). \<exists>e. keys (getTagKey x) = Some e \<and> e \<noteq> x"
        by (intro bexI [of _ u]) auto
      then show ?thesis unfolding conflictK_alt by blast
    qed
  next
    case b
    from b(5) have "getTagKey u \<notin> dom keys" by auto
    with b(1-4) have "\<exists>x\<in>set (t # G). \<exists>y\<in>set (t # G).
          getTagKey x = getTagKey y \<and> x \<noteq> y \<and> getTagKey x \<notin> dom keys"
      by (intro bexI [of _ u] bexI [of _ v]) auto
    then show ?thesis unfolding conflictK_alt by blast
  qed
qed

lemma conflictK_fresh:
  assumes "keys (getTagKey t) = None"
  shows "conflictK keys (t # G) = conflictK (keys(getTagKey t \<mapsto> t)) G"
  using conflictK_fresh_1 [of keys t G] conflictK_fresh_2 [of keys t G] assms by blast

lemma mergeNew_ok:
  "\<not> conflictK keys G \<Longrightarrow> mergeNew G (rules, keys) = Inr (rules @ firstNew (dom keys) G)"
proof (induction G arbitrary: rules keys)
  case Nil
  then show ?case by simp
next
  case (Cons t G)
  show ?case
  proof (cases "keys (getTagKey t)")
    case None
    with Cons.prems have "\<not> conflictK (keys(getTagKey t \<mapsto> t)) G"
      by (simp add: conflictK_fresh)
    then have "mergeNew G (rules @ [t], keys(getTagKey t \<mapsto> t)) =
        Inr ((rules @ [t]) @ firstNew (dom (keys(getTagKey t \<mapsto> t))) G)"
      by (rule Cons.IH)
    moreover have "mergeNew (t # G) (rules, keys) = mergeNew G (rules @ [t], keys(getTagKey t \<mapsto> t))"
      using None by simp
    moreover have "firstNew (dom keys) (t # G) = t # firstNew (dom (keys(getTagKey t \<mapsto> t))) G"
      using None by (simp add: domIff)
    ultimately show ?thesis by simp
  next
    case (Some e)
    with Cons.prems have e: "e = t" by (auto simp: conflictK_alt)
    with Some Cons.prems have "\<not> conflictK keys G" by (simp add: conflictK_same)
    then have "mergeNew G (rules, keys) = Inr (rules @ firstNew (dom keys) G)"
      by (rule Cons.IH)
    with Some e show ?thesis by (simp add: domI)
  qed
qed

lemma mergeNew_conflict:
  "conflictK keys G \<Longrightarrow> keyed keys \<Longrightarrow>
   \<exists>e t. mergeNew G (rules, keys) = Inl (RuleConflict e t) \<and> t \<in> set G \<and>
         getTagKey e = getTagKey t \<and> e \<noteq> t"
proof (induction G arbitrary: rules keys)
  case Nil
  then show ?case by (simp add: conflictK_alt)
next
  case (Cons t G)
  show ?case
  proof (cases "keys (getTagKey t)")
    case None
    with Cons.prems have c: "conflictK (keys(getTagKey t \<mapsto> t)) G"
      by (simp add: conflictK_fresh)
    have k: "keyed (keys(getTagKey t \<mapsto> t))"
      using Cons.prems(2) by (auto simp: keyed_def)
    have "mergeNew (t # G) (rules, keys) = mergeNew G (rules @ [t], keys(getTagKey t \<mapsto> t))"
      using None by simp
    moreover from Cons.IH [OF c k, of "rules @ [t]"] obtain e u where
      "mergeNew G (rules @ [t], keys(getTagKey t \<mapsto> t)) = Inl (RuleConflict e u)"
      "u \<in> set G" "getTagKey e = getTagKey u" "e \<noteq> u" by blast
    ultimately have "mergeNew (t # G) (rules, keys) = Inl (RuleConflict e u) \<and> u \<in> set (t # G) \<and>
        getTagKey e = getTagKey u \<and> e \<noteq> u" by simp
    then show ?thesis by blast
  next
    case (Some e)
    show ?thesis
    proof (cases "e = t")
      case True
      with Some Cons.prems have c: "conflictK keys G" by (simp add: conflictK_same)
      have "mergeNew (t # G) (rules, keys) = mergeNew G (rules, keys)"
        using Some True by simp
      moreover from Cons.IH [OF c Cons.prems(2), of rules] obtain e' u where
        "mergeNew G (rules, keys) = Inl (RuleConflict e' u)"
        "u \<in> set G" "getTagKey e' = getTagKey u" "e' \<noteq> u" by blast
      ultimately have "mergeNew (t # G) (rules, keys) = Inl (RuleConflict e' u) \<and> u \<in> set (t # G) \<and>
          getTagKey e' = getTagKey u \<and> e' \<noteq> u" by simp
      then show ?thesis by blast
    next
      case False
      moreover from Some Cons.prems(2) have "getTagKey e = getTagKey t" by (simp add: keyed_def)
      ultimately have "mergeNew (t # G) (rules, keys) = Inl (RuleConflict e t) \<and> t \<in> set (t # G) \<and>
          getTagKey e = getTagKey t \<and> e \<noteq> t" using Some by simp
      then show ?thesis by blast
    qed
  qed
qed

lemma lastWithKey_key: "lastWithKey k rules = Some e \<Longrightarrow> getTagKey e = k"
  by (auto simp: lastWithKey_def find_Some_iff)

lemma lastWithKey_None: "lastWithKey k rules = None \<longleftrightarrow> k \<notin> getTagKey ` set rules"
  by (auto simp: lastWithKey_def find_None_iff)

lemma mergeRules_unfold:
  "mergeRules E G = mergeNew G (cleaned E, recorded E)"
proof -
  have "(\<lambda>k. case lastWithKey k (cleaned E) of Some e \<Rightarrow> Some e | None \<Rightarrow> Map.empty k) = recorded E"
    by (auto simp: recorded_def fun_eq_iff split: option.splits)
  then show ?thesis by (simp add: mergeRules_def mergeExisting_spec)
qed

lemma keyed_recorded: "keyed (recorded E)"
  by (auto simp: keyed_def recorded_def dest: lastWithKey_key)

lemma dom_recorded: "dom (recorded E) = getTagKey ` set (cleaned E)"
proof -
  have "k \<in> dom (recorded E) \<longleftrightarrow> k \<in> getTagKey ` set (cleaned E)" for k
    using lastWithKey_None [of k "cleaned E"] by (auto simp: recorded_def domIff)
  then show ?thesis by blast
qed

lemma conflicting_conflictK: "conflicting E G = conflictK (recorded E) G"
  unfolding conflicting_def conflictK_def dom_recorded by (simp add: recorded_def)

lemma cleaned_trimmed: "\<forall>p\<in>set E. TrimSpace p = p \<and> p \<noteq> [] \<Longrightarrow> cleaned E = E"
  by (induction E) (auto simp: cleaned_def)

text \<open>
  C6 (amended). \<open>mergeRules\<close> returns the existing rules, each trimmed of surrounding
  white space and the blank ones dropped (so verbatim when they are already trimmed and
  not blank), in their order, as the prefix of the result, followed by the generated
  rules, in generator order, whose key matches no existing rule and no generated rule
  appended before; a generated rule whose key is already recorded with the same token
  is skipped. The merge fails, with a \<open>RuleConflict\<close> of two different tokens with one
  key, exactly when a generated rule differs from the last existing rule with its key,
  or when two generated rules with one key that no existing rule has differ.
\<close>

theorem mergeRules_result:
  "(conflicting E G \<longrightarrow>
      (\<exists>e t. mergeRules E G = Inl (RuleConflict e t) \<and> t \<in> set G \<and>
             getTagKey e = getTagKey t \<and> e \<noteq> t)) \<and>
   (\<not> conflicting E G \<longrightarrow>
      mergeRules E G = Inr (cleaned E @ firstNew (getTagKey ` set (cleaned E)) G)) \<and>
   ((\<forall>p\<in>set E. TrimSpace p = p \<and> p \<noteq> []) \<longrightarrow> cleaned E = E)"
proof -
  have "(\<forall>p\<in>set E. TrimSpace p = p \<and> p \<noteq> []) \<longrightarrow> cleaned E = E"
    by (simp add: cleaned_trimmed)
  then show ?thesis
    using mergeNew_conflict [OF _ keyed_recorded, of E G "cleaned E"]
          mergeNew_ok [of "recorded E" G "cleaned E"]
    by (simp add: mergeRules_unfold conflicting_conflictK dom_recorded)
qed

theorem mergeRules_result_witness:
  "\<not> conflicting [''manual_tag'', ''max=9''] [''min=5'', ''max=9'', ''min=5''] \<and>
   mergeRules [''manual_tag'', ''max=9''] [''min=5'', ''max=9'', ''min=5''] =
     Inr [''manual_tag'', ''max=9'', ''min=5''] \<and>
   conflicting [''min=3''] [''min=5''] \<and>
   mergeRules [''min=3''] [''min=5''] = Inl (RuleConflict ''min=3'' ''min=5'') \<and>
   TrimSpace ''manual_tag'' = ''manual_tag'' \<and> TrimSpace ''max=9'' = ''max=9'' \<and>
   cleaned [''manual_tag'', ''max=9''] = [''manual_tag'', ''max=9'']"
proof -
  let ?E = "[''manual_tag'', ''max=9'']"
  let ?G = "[''min=5'', ''max=9'', ''min=5'']"
  have a: "\<not> conflicting ?E ?G"
    by code_simp
  have b: "cleaned ?E @ firstNew (getTagKey ` set (cleaned ?E)) ?G =
      [''manual_tag'', ''max=9'', ''min=5'']"
    by code_simp
  have c: "conflicting [''min=3''] [''min=5'']"
    by code_simp
  have d: "\<forall>p\<in>set ?E. TrimSpace p = p \<and> p \<noteq> []"
    by code_simp
  from mergeRules_result [of ?E ?G] a
  have "mergeRules ?E ?G = Inr (cleaned ?E @ firstNew (getTagKey ` set (cleaned ?E)) ?G)"
    by blast
  then have e: "mergeRules ?E ?G = Inr [''manual_tag'', ''max=9'', ''min=5'']"
    by (simp only: b)
  from mergeRules_result [of ?E ?G] d have f: "cleaned ?E = ?E"
    by blast
  from mergeRules_result [of "[''min=3'']" "[''min=5'']"] c
  have "\<exists>e t. mergeRules [''min=3''] [''min=5''] = Inl (RuleConflict e t)"
    by blast
  moreover have "mergeRules [''min=3''] [''min=5''] = Inl (RuleConflict ''min=3'' ''min=5'')"
    by code_simp
  moreover from d have "TrimSpace ''manual_tag'' = ''manual_tag''" "TrimSpace ''max=9'' = ''max=9''"
    by simp_all
  ultimately show ?thesis using a c e f by blast
qed

theorem mergeRules_generated_conflict_counterexample:
  "mergeRules [] [''min=5'', ''min=3''] = Inl (RuleConflict ''min=5'' ''min=3'')"
  by code_simp

section \<open>The generator: the order of the rules\<close>

lemma if_snoc: "(if c then t @ [x] else t) = t @ (if c then [x] else [])"
  by simp

lemma if_append: "(if c then t @ xs else t @ ys) = t @ (if c then xs else ys)"
  by simp

lemma case_snoc:
  "(case v of None \<Rightarrow> t | Some m \<Rightarrow> t @ [f m]) = t @ (case v of None \<Rightarrow> [] | Some m \<Rightarrow> [f m])"
  by (cases v) simp_all

lemma patternRules_eq: "(if Pattern s \<noteq> [] then [''regex='' @ Pattern s] else []) = patternRules s"
  by (simp add: patternRules_def)

lemma lengthRules_eq:
  "(if 0 < MinLength s then [''min='' @ Sprintf_d (unat (MinLength s))] else []) @
   (case MaxLength s of None \<Rightarrow> [] | Some m \<Rightarrow> [''max='' @ Sprintf_d (unat m)]) = lengthRules s"
  by (simp add: lengthRules_def word_gt_0)

lemma boundRules_eq:
  "(case Min' s of None \<Rightarrow> []
    | Some x \<Rightarrow> [(if ExclusiveMin s then ''gt'' else ''min'') @ ''='' @ Sprintf_f0 lib x]) @
   (case Max' s of None \<Rightarrow> []
    | Some x \<Rightarrow> [(if ExclusiveMax s then ''lt'' else ''max'') @ ''='' @ Sprintf_f0 lib x]) =
   boundRules lib s"
  by (simp add: boundRules_def split: option.splits)

lemma itemsRules_eq:
  "(if 0 < MinItems s then [''min='' @ Sprintf_d (unat (MinItems s))] else []) @
   (case MaxItems s of None \<Rightarrow> [] | Some m \<Rightarrow> [''max='' @ Sprintf_d (unat m)]) @
   (if UniqueItems s then [''unique''] else []) = itemsRules s"
  by (simp add: itemsRules_def word_gt_0)

lemma formatRules_eq:
  "(if Format s = ''email'' then [''email'']
    else if Format s = ''uuid'' then [''uuid'']
    else if Format s = ''ipv4'' then [''ipv4'']
    else if Format s = ''ipv6'' then [''ipv6'']
    else if Format s = ''uri'' \<or> Format s = ''url'' then [''url'']
    else []) = formatRules s"
  by (simp add: formatRules_def)

lemma generateRules_segments:
  assumes "MultipleOf s = None" "Pattern s = [] \<or> regexp_Compile lib (Pattern s) = None"
  shows "generateRules lib s =
      Inr (patternRules s @ lengthRules s @ boundRules lib s @ itemsRules s @ formatRules s)"
proof -
  have "generateRules lib s = Inr (
     (if Pattern s \<noteq> [] then [''regex='' @ Pattern s] else []) @
     ((if 0 < MinLength s then [''min='' @ Sprintf_d (unat (MinLength s))] else []) @
      (case MaxLength s of None \<Rightarrow> [] | Some m \<Rightarrow> [''max='' @ Sprintf_d (unat m)])) @
     ((case Min' s of None \<Rightarrow> []
       | Some x \<Rightarrow> [(if ExclusiveMin s then ''gt'' else ''min'') @ ''='' @ Sprintf_f0 lib x]) @
      (case Max' s of None \<Rightarrow> []
       | Some x \<Rightarrow> [(if ExclusiveMax s then ''lt'' else ''max'') @ ''='' @ Sprintf_f0 lib x])) @
     ((if 0 < MinItems s then [''min='' @ Sprintf_d (unat (MinItems s))] else []) @
      (case MaxItems s of None \<Rightarrow> [] | Some m \<Rightarrow> [''max='' @ Sprintf_d (unat m)]) @
      (if UniqueItems s then [''unique''] else [])) @
     (if Format s = ''email'' then [''email'']
      else if Format s = ''uuid'' then [''uuid'']
      else if Format s = ''ipv4'' then [''ipv4'']
      else if Format s = ''ipv6'' then [''ipv6'']
      else if Format s = ''uri'' \<or> Format s = ''url'' then [''url'']
      else []))"
  proof -
    have g: "(if Pattern s \<noteq> [] then regexp_Compile lib (Pattern s) else None) = None"
      using assms(2) by auto
    have n: "(MultipleOf s \<noteq> None) = False"
      using assms(1) by simp
    show ?thesis
      unfolding generateRules_def g n
      by (simp only: Let_def if_snoc if_append case_snoc if_False option.case)
        (simp only: append_assoc append_Nil)
  qed
  then show ?thesis
    by (simp only: patternRules_eq lengthRules_eq boundRules_eq itemsRules_eq formatRules_eq)
qed

text \<open>
  C7. When \<open>multipleOf\<close> is absent and the pattern, if any, compiles, \<open>generateRules\<close>
  returns the rules of the checks in the fixed order pattern, string length, numeric
  bounds, array cardinality and uniqueness, format; and for \<open>minLength = 5\<close>,
  \<open>maxLength = 10\<close> and nothing else it returns exactly \<open>["min=5", "max=10"]\<close>.
\<close>

theorem generateRules_order:
  "(MultipleOf s = None \<and> (Pattern s = [] \<or> regexp_Compile lib (Pattern s) = None) \<longrightarrow>
      generateRules lib s =
        Inr (patternRules s @ lengthRules s @ boundRules lib s @ itemsRules s @ formatRules s)) \<and>
   generateRules lib (emptySchema\<lparr>MinLength := 5, MaxLength := Some 10\<rparr>) =
     Inr [''min=5'', ''max=10'']"
proof -
  have "generateRules lib (emptySchema\<lparr>MinLength := 5, MaxLength := Some 10\<rparr>) =
      Inr [''min=5'', ''max=10'']"
    by (simp add: generateRules_def emptySchema_def Sprintf_d.simps)
  moreover have "generateRules lib s =
      Inr (patternRules s @ lengthRules s @ boundRules lib s @ itemsRules s @ formatRules s)"
    if "MultipleOf s = None" "Pattern s = [] \<or> regexp_Compile lib (Pattern s) = None"
    using that by (rule generateRules_segments)
  ultimately show ?thesis by blast
qed

theorem generateRules_order_witness:
  "MultipleOf (emptySchema\<lparr>MinLength := 2, MaxLength := Some 7, MinItems := 1,
      UniqueItems := True, Format := ''uri''\<rparr>) = None \<and>
   Pattern (emptySchema\<lparr>MinLength := 2, MaxLength := Some 7, MinItems := 1,
      UniqueItems := True, Format := ''uri''\<rparr>) = [] \<and>
   generateRules exampleLib (emptySchema\<lparr>MinLength := 2, MaxLength := Some 7, MinItems := 1,
      UniqueItems := True, Format := ''uri''\<rparr>) =
     Inr [''min=2'', ''max=7'', ''min=1'', ''unique'', ''url'']"
proof -
  let ?s = "emptySchema\<lparr>MinLength := 2, MaxLength := Some 7, MinItems := 1,
      UniqueItems := True, Format := ''uri''\<rparr>"
  have a: "MultipleOf ?s = None" "Pattern ?s = []"
    by (simp_all add: emptySchema_def)
  have b: "patternRules ?s @ lengthRules ?s @ boundRules exampleLib ?s @ itemsRules ?s @
      formatRules ?s = [''min=2'', ''max=7'', ''min=1'', ''unique'', ''url'']"
    by (simp add: patternRules_def lengthRules_def boundRules_def itemsRules_def
        formatRules_def emptySchema_def Sprintf_d.simps)
  from generateRules_order [of ?s exampleLib] a b show ?thesis by simp
qed

section \<open>The traversal: \<open>PreOrder\<close> enumerates in depth-first pre-order\<close>

lemma height_le_forestHeight: "t \<in> set ts \<Longrightarrow> height t \<le> forestHeight ts"
  by (induction ts) (auto simp: forestHeight_def)

lemma height_Rose: "height (Rose a ts) = Suc (forestHeight ts)"
  by (simp add: forestHeight_def)

lemma rangeOver_walk:
  assumes "\<And>t acc. t \<in> set ts \<Longrightarrow> w (root t) acc = Some (True, acc @ preorder t)"
  shows "rangeOver (map root ts) w acc = Some (True, acc @ concat (map preorder ts))"
  using assms
proof (induction ts arbitrary: acc)
  case Nil
  then show ?case by simp
next
  case (Cons t ts)
  have "w (root t) acc = Some (True, acc @ preorder t)"
    by (rule Cons.prems) simp
  moreover have "rangeOver (map root ts) w (acc @ preorder t) =
      Some (True, (acc @ preorder t) @ concat (map preorder ts))"
    by (rule Cons.IH) (simp add: Cons.prems)
  ultimately show ?case by simp
qed

lemma walk_collect:
  "unfolds children t \<Longrightarrow> height t \<le> fuel \<Longrightarrow>
   walk fuel collect (\<lambda>n. rangeOver (children n)) (root t) acc = Some (True, acc @ preorder t)"
proof (induction fuel arbitrary: t acc)
  case 0
  then show ?case by (cases t) simp
next
  case (Suc fuel)
  obtain a ts where t: "t = Rose a ts" by (cases t)
  from Suc.prems t have c: "children a = map root ts"
    and u: "\<And>k. k \<in> set ts \<Longrightarrow> unfolds children k"
    and h: "forestHeight ts \<le> fuel"
    by (simp_all add: height_Rose del: height.simps)
  have k: "walk fuel collect (\<lambda>n. rangeOver (children n)) (root k) acc' =
      Some (True, acc' @ preorder k)" if "k \<in> set ts" for k acc'
  proof (rule Suc.IH)
    from that show "unfolds children k" by (rule u)
    from that have "height k \<le> forestHeight ts" by (rule height_le_forestHeight)
    with h show "height k \<le> fuel" by simp
  qed
  have "walk (Suc fuel) collect (\<lambda>n. rangeOver (children n)) (root t) acc =
      rangeOver (map root ts) (walk fuel collect (\<lambda>n. rangeOver (children n))) (acc @ [a])"
    by (simp add: t collect_def c)
  also have "\<dots> = Some (True, (acc @ [a]) @ concat (map preorder ts))"
    by (rule rangeOver_walk) (rule k)
  finally show ?case by (simp add: t)
qed

text \<open>
  C8. For a finite forest and a child-producing function that describes it, \<open>PreOrder\<close>,
  given fuel for the height of the forest, hands its consumer exactly the nodes of the
  forest in depth-first pre-order: the roots from left to right, each node before its
  subtrees, the subtrees from left to right.
\<close>

theorem PreOrder_enumerates:
  assumes "\<forall>t\<in>set ts. unfolds children t"
  shows "\<forall>fuel\<ge>forestHeight ts.
    PreOrder fuel (rangeOver (map root ts)) (\<lambda>n. rangeOver (children n)) collect [] =
      Some (True, concat (map preorder ts))"
proof (intro allI impI)
  fix fuel
  assume f: "forestHeight ts \<le> fuel"
  have "walk fuel collect (\<lambda>n. rangeOver (children n)) (root t) acc =
      Some (True, acc @ preorder t)" if "t \<in> set ts" for t acc
  proof (rule walk_collect)
    from that assms show "unfolds children t" by blast
    from that have "height t \<le> forestHeight ts" by (rule height_le_forestHeight)
    with f show "height t \<le> fuel" by simp
  qed
  then have "rangeOver (map root ts) (walk fuel collect (\<lambda>n. rangeOver (children n))) [] =
      Some (True, [] @ concat (map preorder ts))"
    by (rule rangeOver_walk)
  then show "PreOrder fuel (rangeOver (map root ts)) (\<lambda>n. rangeOver (children n)) collect [] =
      Some (True, concat (map preorder ts))"
    by (simp add: PreOrder_def)
qed

theorem PreOrder_enumerates_witness:
  "unfolds (\<lambda>n::nat. if n = 1 then [2, 3] else if n = 3 then [4] else [])
     (Rose 1 [Rose 2 [], Rose 3 [Rose 4 []]]) \<and>
   unfolds (\<lambda>n::nat. if n = 1 then [2, 3] else if n = 3 then [4] else []) (Rose 5 []) \<and>
   forestHeight [Rose (1::nat) [Rose 2 [], Rose 3 [Rose 4 []]], Rose 5 []] = 3 \<and>
   PreOrder 3 (rangeOver [1, 5])
     (\<lambda>n::nat. rangeOver (if n = 1 then [2, 3] else if n = 3 then [4] else [])) collect [] =
     Some (True, [1, 2, 3, 4, 5])"
proof -
  let ?c = "\<lambda>n::nat. if n = 1 then [2, 3] else if n = 3 then [4] else []"
  let ?ts = "[Rose (1::nat) [Rose 2 [], Rose 3 [Rose 4 []]], Rose 5 []]"
  have u: "unfolds ?c (Rose 1 [Rose 2 [], Rose 3 [Rose 4 []]])" "unfolds ?c (Rose 5 [])"
    by simp_all
  then have a: "\<forall>t\<in>set ?ts. unfolds ?c t" by simp
  have h: "forestHeight ?ts = 3" by (simp add: forestHeight_def)
  from PreOrder_enumerates [OF a] h
  have "PreOrder 3 (rangeOver (map root ?ts)) (\<lambda>n. rangeOver (?c n)) collect [] =
      Some (True, concat (map preorder ?ts))"
    by simp
  then have "PreOrder 3 (rangeOver [1, 5]) (\<lambda>n. rangeOver (?c n)) collect [] =
      Some (True, [1, 2, 3, 4, 5])"
    by simp
  with u h show ?thesis by blast
qed

end
